theory Spec2Isabelle
  imports Complex_Main
begin

section \<open>The scalar autodiff engine of micrograd.py\<close>

text \<open>
  The Python class \<open>Value\<close> is an object with the fields \<open>data\<close>, \<open>grad\<close>,
  \<open>_prev\<close>, \<open>_backward\<close>, \<open>_op\<close> and \<open>label\<close>. Objects are shared and mutated
  through references, so the model keeps an explicit store: a list of objects in order
  of creation, where the position of an object is its identity (Python's \<open>id\<close>).

  Numbers: Python's \<open>int\<close> and \<open>float\<close> values are modelled by \<open>real\<close>. Rounding,
  overflow (\<open>OverflowError\<close> of \<open>math.exp\<close> and of \<open>**\<close>), the non-finite floats
  and the recursion limit of the interpreter are outside the model.
\<close>

subsection \<open>Data model\<close>

text \<open>The exceptions the modelled code raises.\<close>

datatype error = AssertionError | ZeroDivisionError | ComplexResult

text \<open>
  An argument of an operator: a number, or a reference to a \<open>Value\<close>
  (\<open>isinstance(other, Value)\<close>).
\<close>

datatype operand = Scalar real | Ref nat

text \<open>
  The closure stored in \<open>_backward\<close>. \<open>Noop\<close> is \<open>lambda: None\<close>; the others are
  the local functions \<open>_backward\<close> of \<open>__add__\<close>, \<open>__mul__\<close>, \<open>tanh\<close>, \<open>exp\<close> and
  \<open>__pow__\<close> with the variables they capture (\<open>self\<close>, \<open>other\<close>, \<open>t\<close>); the
  captured \<open>out\<close> is the object that holds the closure.
\<close>

datatype closure =
    Noop
  | Add_backward nat nat
  | Mul_backward nat nat
  | Tanh_backward nat real
  | Exp_backward nat
  | Pow_backward nat real

text \<open>
  The tag \<open>_op\<close>: the strings \<open>''\<close>, \<open>'+'\<close>, \<open>'*'\<close>, \<open>'tanh'\<close>, \<open>'exp'\<close> and
  \<open>f'**{other}'\<close>.
\<close>

datatype optag = Op_none | Op_add | Op_mul | Op_tanh | Op_exp | Op_pow real

text \<open>
  \<open>prev\<close> is the set \<open>_prev\<close>, kept as the duplicate-free list of its elements in the
  order in which iterating the set yields them.
\<close>

record Value =
  data :: real
  grad :: real
  prev :: "nat list"
  bwd :: closure
  op :: optag
  label :: string

type_synonym store = "Value list"

text \<open>
  \<open>set(_children)\<close>: duplicates collapse (objects hash by identity), and the order of
  iteration is not fixed by the program. For the sets of at most two elements that the
  operators build, the flag chooses between the two possible orders.
\<close>

definition set_of :: "bool \<Rightarrow> nat list \<Rightarrow> nat list" where
  "set_of flip children = (if flip then rev (remdups children) else remdups children)"

subsection \<open>Construction\<close>

text \<open>\<open>Value.__init__\<close>: the new object is appended to the store; its reference is returned.\<close>

definition Value_init :: "bool \<Rightarrow> store \<Rightarrow> real \<Rightarrow> nat list \<Rightarrow> optag \<Rightarrow> string \<Rightarrow> store \<times> nat" where
  "Value_init flip s d children tag lbl =
     (s @ [\<lparr>data = d, grad = 0, prev = set_of flip children, bwd = Noop, op = tag, label = lbl\<rparr>],
      length s)"

text \<open>\<open>Value(x)\<close>: a leaf.\<close>

definition leaf :: "store \<Rightarrow> real \<Rightarrow> store \<times> nat" where
  "leaf s d = Value_init False s d [] Op_none []"

text \<open>\<open>other if isinstance(other, Value) else Value(other)\<close>\<close>

definition wrap :: "store \<Rightarrow> operand \<Rightarrow> store \<times> nat" where
  "wrap s other = (case other of Ref j \<Rightarrow> (s, j) | Scalar x \<Rightarrow> leaf s x)"

text \<open>\<open>out._backward = _backward\<close>\<close>

definition set_backward :: "store \<Rightarrow> nat \<Rightarrow> closure \<Rightarrow> store" where
  "set_backward s out f = s[out := (s ! out)\<lparr>bwd := f\<rparr>]"

subsection \<open>Operators\<close>

definition add :: "bool \<Rightarrow> store \<Rightarrow> nat \<Rightarrow> operand \<Rightarrow> store \<times> nat" where
  "add flip s self other =
     (let (s1, other') = wrap s other;
          (s2, out) = Value_init flip s1 (data (s1 ! self) + data (s1 ! other')) [self, other'] Op_add []
      in (set_backward s2 out (Add_backward self other'), out))"

definition mul :: "bool \<Rightarrow> store \<Rightarrow> nat \<Rightarrow> operand \<Rightarrow> store \<times> nat" where
  "mul flip s self other =
     (let (s1, other') = wrap s other;
          (s2, out) = Value_init flip s1 (data (s1 ! self) * data (s1 ! other')) [self, other'] Op_mul []
      in (set_backward s2 out (Mul_backward self other'), out))"

text \<open>\<open>__neg__\<close>: \<open>self * -1\<close>\<close>

definition neg :: "bool \<Rightarrow> store \<Rightarrow> nat \<Rightarrow> store \<times> nat" where
  "neg flip s self = mul flip s self (Scalar (- 1))"

text \<open>
  \<open>__sub__\<close>: \<open>self + (-other)\<close>. For a \<open>Value\<close> the unary minus is \<open>__neg__\<close>; for a
  number it is the number's own negation.
\<close>

definition sub :: "bool \<Rightarrow> bool \<Rightarrow> store \<Rightarrow> nat \<Rightarrow> operand \<Rightarrow> store \<times> nat" where
  "sub flip_neg flip s self other =
     (case other of
        Ref j \<Rightarrow> (let (s1, n) = neg flip_neg s j in add flip s1 self (Ref n))
      | Scalar x \<Rightarrow> add flip s self (Scalar (- x)))"

text \<open>\<open>__rmul__\<close>: \<open>self * other\<close>\<close>

definition rmul :: "bool \<Rightarrow> store \<Rightarrow> nat \<Rightarrow> operand \<Rightarrow> store \<times> nat" where
  "rmul flip s self other = mul flip s self other"

definition tanh_op :: "store \<Rightarrow> nat \<Rightarrow> store \<times> nat" where
  "tanh_op s self =
     (let x = data (s ! self);
          t = (exp (2 * x) - 1) / (exp (2 * x) + 1);
          (s1, out) = Value_init False s t [self] Op_tanh []
      in (set_backward s1 out (Tanh_backward self t), out))"

definition exp_op :: "store \<Rightarrow> nat \<Rightarrow> store \<times> nat" where
  "exp_op s self =
     (let (s1, out) = Value_init False s (exp (data (s ! self))) [self] Op_exp []
      in (set_backward s1 out (Exp_backward self), out))"

text \<open>
  Python's \<open>x ** k\<close> on numbers: zero to a negative power raises \<open>ZeroDivisionError\<close>;
  a negative base with a non-integral exponent gives a complex number, which is no
  \<open>real\<close>: the model stops there with \<open>ComplexResult\<close> (Python itself raises nothing).
\<close>

definition py_pow :: "real \<Rightarrow> real \<Rightarrow> error + real" where
  "py_pow x k =
     (if x = 0 then (if k < 0 then Inl ZeroDivisionError else if k = 0 then Inr 1 else Inr 0)
      else if k = of_int \<lfloor>k\<rfloor> then Inr (x powi \<lfloor>k\<rfloor>)
      else if 0 < x then Inr (x powr k)
      else Inl ComplexResult)"

text \<open>\<open>__pow__\<close>: the assertion rejects an exponent that is not an \<open>int\<close> or a \<open>float\<close>.\<close>

definition pow :: "store \<Rightarrow> nat \<Rightarrow> operand \<Rightarrow> error + store \<times> nat" where
  "pow s self other =
     (case other of
        Ref j \<Rightarrow> Inl AssertionError
      | Scalar k \<Rightarrow>
          (case py_pow (data (s ! self)) k of
             Inl e \<Rightarrow> Inl e
           | Inr d \<Rightarrow>
               (let (s1, out) = Value_init False s d [self] (Op_pow k) []
                in Inr (set_backward s1 out (Pow_backward self k), out))))"

text \<open>
  \<open>__truediv__\<close>: \<open>self * other**-1\<close>. For a \<open>Value\<close> the power is \<open>__pow__\<close>; for a
  number it is the power of numbers, and \<open>__mul__\<close> wraps its result.
\<close>

definition truediv :: "bool \<Rightarrow> store \<Rightarrow> nat \<Rightarrow> operand \<Rightarrow> error + store \<times> nat" where
  "truediv flip s self other =
     (case other of
        Ref j \<Rightarrow>
          (case pow s j (Scalar (- 1)) of
             Inl e \<Rightarrow> Inl e
           | Inr (s1, p) \<Rightarrow> Inr (mul flip s1 self (Ref p)))
      | Scalar x \<Rightarrow>
          (case py_pow x (- 1) of
             Inl e \<Rightarrow> Inl e
           | Inr y \<Rightarrow> Inr (mul flip s self (Scalar y))))"

subsection \<open>The backward pass\<close>

text \<open>\<open>v.grad += c\<close>\<close>

definition grad_add :: "store \<Rightarrow> nat \<Rightarrow> real \<Rightarrow> store" where
  "grad_add s v c = s[v := (s ! v)\<lparr>grad := grad (s ! v) + c\<rparr>]"

text \<open>
  \<open>node._backward()\<close>: the statements of the closure, one after the other on the
  store (so that \<open>a + a\<close> and \<open>a * a\<close> update the same object twice).
\<close>

definition call_backward :: "store \<Rightarrow> nat \<Rightarrow> error + store" where
  "call_backward s out =
     (case bwd (s ! out) of
        Noop \<Rightarrow> Inr s
      | Add_backward self other \<Rightarrow>
          (let s1 = grad_add s self (1 * grad (s ! out))
           in Inr (grad_add s1 other (1 * grad (s1 ! out))))
      | Mul_backward self other \<Rightarrow>
          (let s1 = grad_add s self (data (s ! other) * grad (s ! out))
           in Inr (grad_add s1 other (data (s1 ! self) * grad (s1 ! out))))
      | Tanh_backward self t \<Rightarrow> Inr (grad_add s self ((1 - t\<^sup>2) * grad (s ! out)))
      | Exp_backward self \<Rightarrow> Inr (grad_add s self (data (s ! out) * grad (s ! out)))
      | Pow_backward self other \<Rightarrow>
          (case py_pow (data (s ! self)) (other - 1) of
             Inl e \<Rightarrow> Inl e
           | Inr p \<Rightarrow> Inr (grad_add s self (other * p * grad (s ! out)))))"

text \<open>A \<open>for\<close> loop whose body may not return: the state is threaded through.\<close>

primrec for_each :: "('a \<Rightarrow> 'st \<Rightarrow> 'st option) \<Rightarrow> 'a list \<Rightarrow> 'st \<Rightarrow> 'st option" where
  "for_each body [] st = Some st"
| "for_each body (x # xs) st = Option.bind (body x st) (for_each body xs)"

lemma for_each_mono [partial_function_mono]:
  assumes "\<And>x st. mono_option (\<lambda>f. body f x st)"
  shows "mono_option (\<lambda>f. for_each (body f) xs st)"
proof (induction xs arbitrary: st)
  case Nil
  show ?case by (simp add: option.const_mono)
next
  case (Cons x xs)
  show ?case
    unfolding for_each.simps
    by (rule bind_mono) (rule assms, rule Cons.IH)
qed

text \<open>
  The local function \<open>build_topo\<close> of \<open>backward\<close>; the state is the pair of the
  variables \<open>topo\<close> and \<open>visited\<close> it updates. \<open>None\<close>: the recursion does not return.
\<close>

partial_function (option) build_topo :: "store \<Rightarrow> nat \<Rightarrow> nat list \<times> nat set \<Rightarrow> (nat list \<times> nat set) option" where
  "build_topo s v st =
     (case st of (topo, visited) \<Rightarrow>
        if v \<notin> visited then
          Option.bind
            (for_each (\<lambda>child st'. build_topo s child st') (prev (s ! v)) (topo, insert v visited))
            (\<lambda>(topo', visited'). Some (topo' @ [v], visited'))
        else Some (topo, visited))"

declare build_topo.simps [code]

text \<open>
  \<open>for node in reversed(topo): node._backward()\<close>. An exception ends the loop; the
  updates made before it stay in the store, which the error result carries. (A closure
  raises before its own update, see \<open>call_backward\<close>.)
\<close>

fun run_backward :: "store \<Rightarrow> nat list \<Rightarrow> error \<times> store + store" where
  "run_backward s [] = Inr s"
| "run_backward s (node # nodes) =
     (case call_backward s node of Inl e \<Rightarrow> Inl (e, s) | Inr s' \<Rightarrow> run_backward s' nodes)"

text \<open>\<open>self.grad = 1.0\<close>\<close>

definition seed :: "store \<Rightarrow> nat \<Rightarrow> store" where
  "seed s self = s[self := (s ! self)\<lparr>grad := 1\<rparr>]"

text \<open>\<open>Value.backward\<close>\<close>

definition backward :: "store \<Rightarrow> nat \<Rightarrow> (error \<times> store + store) option" where
  "backward s self =
     (case build_topo s self ([], {}) of
        None \<Rightarrow> None
      | Some (topo, visited) \<Rightarrow> Some (run_backward (seed s self) (rev topo)))"

text \<open>The store after a call, whether it returned or raised.\<close>

fun final :: "error \<times> store + store \<Rightarrow> store" where
  "final (Inl (e, s)) = s"
| "final (Inr s) = s"


subsection \<open>Well-formed stores and reachability\<close>

text \<open>The objects a closure captures as \<open>self\<close> and \<open>other\<close>.\<close>

fun closure_operands :: "closure \<Rightarrow> nat list" where
  "closure_operands Noop = []"
| "closure_operands (Add_backward self other) = [self, other]"
| "closure_operands (Mul_backward self other) = [self, other]"
| "closure_operands (Tanh_backward self t) = [self]"
| "closure_operands (Exp_backward self) = [self]"
| "closure_operands (Pow_backward self other) = [self]"

text \<open>
  What the constructors guarantee of the object at position \<open>i\<close>: its operand set
  holds older objects only and is the set of the objects its closure captures, and
  exactly the objects without an operation carry \<open>lambda: None\<close>.
\<close>

definition wf_Value :: "nat \<Rightarrow> Value \<Rightarrow> bool" where
  "wf_Value i n =
     (distinct (prev n) \<and> list_all (\<lambda>c. c < i) (prev n) \<and>
      set (closure_operands (bwd n)) = set (prev n) \<and>
      (op n = Op_none) = (bwd n = Noop))"

fun wf_from :: "nat \<Rightarrow> store \<Rightarrow> bool" where
  "wf_from i [] = True"
| "wf_from i (n # ns) = (wf_Value i n \<and> wf_from (Suc i) ns)"

definition wf_store :: "store \<Rightarrow> bool" where
  "wf_store s = wf_from 0 s"

text \<open>The operand edges, and the objects reachable from a root along them.\<close>

definition edges :: "store \<Rightarrow> (nat \<times> nat) set" where
  "edges s = {(v, c). v < length s \<and> c \<in> set (prev (s ! v))}"

definition reachable :: "store \<Rightarrow> nat \<Rightarrow> nat set" where
  "reachable s r = {v. (r, v) \<in> (edges s)\<^sup>*}"

text \<open>
  A sequence in which no object occurs twice and every object comes after all its
  operands.
\<close>

definition topo_ok :: "store \<Rightarrow> nat list \<Rightarrow> bool" where
  "topo_ok s topo =
     (distinct topo \<and>
      (\<forall>i < length topo. \<forall>c \<in> set (prev (s ! (topo ! i))). \<exists>j < i. topo ! j = c))"

subsection \<open>Auxiliary notions for the proofs\<close>

text \<open>
  The specification of one call \<open>build_topo(v)\<close> in a state where the objects that are
  visited but not yet appended (the callers on the stack) are at least \<open>lo\<close>.
\<close>

definition dfs_pre :: "store \<Rightarrow> nat \<Rightarrow> nat list \<times> nat set \<Rightarrow> bool" where
  "dfs_pre s lo st =
     (case st of (topo, visited) \<Rightarrow>
        topo_ok s topo \<and> set topo \<subseteq> visited \<and> (\<forall>u. u \<in> visited \<longrightarrow> u \<notin> set topo \<longrightarrow> lo \<le> u))"

definition dfs_post :: "store \<Rightarrow> nat set \<Rightarrow> nat list \<times> nat set \<Rightarrow> (nat list \<times> nat set) option \<Rightarrow> bool" where
  "dfs_post s R st res =
     (case st of (topo, visited) \<Rightarrow>
        \<exists>new. res = Some (topo @ new, visited \<union> R) \<and> topo_ok s (topo @ new) \<and>
              set (topo @ new) = set topo \<union> R)"

text \<open>The store with every \<open>grad\<close> blanked: all that a backward pass must not change.\<close>

definition erase_grad :: "store \<Rightarrow> store" where
  "erase_grad s = map (\<lambda>n. n\<lparr>grad := 0\<rparr>) s"

subsection \<open>The stores a program can build\<close>

text \<open>An operand that is a reference refers to an object of the store.\<close>

definition valid_operand :: "store \<Rightarrow> operand \<Rightarrow> bool" where
  "valid_operand s other = (case other of Ref j \<Rightarrow> j < length s | Scalar x \<Rightarrow> True)"

text \<open>
  The stores that a program can reach through the public operations, starting from
  the empty store: \<open>Value(d)\<close> with an optional label, the operators, and \<open>backward()\<close>.
\<close>

inductive constructible :: "store \<Rightarrow> bool" where
  c_empty: "constructible []"
| c_Value: "constructible s \<Longrightarrow> constructible (fst (Value_init False s d [] Op_none lbl))"
| c_add: "constructible s \<Longrightarrow> self < length s \<Longrightarrow> valid_operand s other \<Longrightarrow>
     constructible (fst (add flip s self other))"
| c_mul: "constructible s \<Longrightarrow> self < length s \<Longrightarrow> valid_operand s other \<Longrightarrow>
     constructible (fst (mul flip s self other))"
| c_neg: "constructible s \<Longrightarrow> self < length s \<Longrightarrow> constructible (fst (neg flip s self))"
| c_sub: "constructible s \<Longrightarrow> self < length s \<Longrightarrow> valid_operand s other \<Longrightarrow>
     constructible (fst (sub flip_neg flip s self other))"
| c_rmul: "constructible s \<Longrightarrow> self < length s \<Longrightarrow> valid_operand s other \<Longrightarrow>
     constructible (fst (rmul flip s self other))"
| c_tanh: "constructible s \<Longrightarrow> self < length s \<Longrightarrow> constructible (fst (tanh_op s self))"
| c_exp: "constructible s \<Longrightarrow> self < length s \<Longrightarrow> constructible (fst (exp_op s self))"
| c_pow: "constructible s \<Longrightarrow> self < length s \<Longrightarrow> pow s self other = Inr (s', out) \<Longrightarrow>
     constructible s'"
| c_truediv: "constructible s \<Longrightarrow> self < length s \<Longrightarrow> valid_operand s other \<Longrightarrow>
     truediv flip s self other = Inr (s', out) \<Longrightarrow> constructible s'"
| c_backward: "constructible s \<Longrightarrow> self < length s \<Longrightarrow> backward s self = Some res \<Longrightarrow>
     constructible (final res)"

text \<open>The store \<open>s'\<close> is \<open>s\<close> with new objects appended.\<close>

definition extends :: "store \<Rightarrow> store \<Rightarrow> bool" where
  "extends s s' = (length s \<le> length s' \<and> take (length s) s' = s)"

subsection \<open>Example programs\<close>

text \<open>An example store: \<open>a = Value(3.0); c = a * a\<close>, with \<open>a\<close> at 0 and \<open>c\<close> at 1.\<close>

definition square_store :: store where
  "square_store = fst (mul False (fst (leaf [] 3)) 0 (Ref 0))"


text \<open>An example store: \<open>a = Value(1.0); z = Value(0.0)\<close>, with \<open>a\<close> at 0 and \<open>z\<close> at 1.\<close>

definition zero_store :: store where
  "zero_store = fst (leaf (fst (leaf [] 1)) 0)"




section \<open>Properties\<close>

lemmas builder_defs =
  mul_def add_def neg_def sub_def rmul_def leaf_def Value_init_def wrap_def set_backward_def
  set_of_def

lemmas backward_defs = backward_def seed_def call_backward_def grad_add_def build_topo.simps

subsection \<open>Direct evaluations\<close>

text \<open>
  Claim C5. The power operation with an exponent that is itself a \<open>Value\<close> is rejected:
  \<open>__pow__\<close> raises at its assertion, before \<open>out\<close> is created, so no object is
  added to the store (the error result carries no new store).
\<close>

theorem pow_rejects_Value_exponent: "pow s self (Ref j) = Inl AssertionError"
  by (simp add: pow_def)


text \<open>
  Claim C7. Subtraction is \<open>self + (-other)\<close>, and the negation is \<open>self * -1\<close>. For
  \<open>a = Value(5.0)\<close>, \<open>b = Value(3.0)\<close> and \<open>c = a - b\<close> (in any store, and whatever
  the iteration order of the two operand sets): \<open>c.data = 2\<close>, and \<open>c.backward()\<close>
  returns with \<open>a.grad = 1\<close> and \<open>b.grad = -1\<close>.
\<close>

theorem sub_is_add_neg_example:
  "sub f1 f2 s0 i (Ref j) = (case neg f1 s0 j of (s1, n) \<Rightarrow> add f2 s1 i (Ref n)) \<and>
   neg f1 s0 j = mul f1 s0 j (Scalar (- 1)) \<and>
   (case leaf s 5 of (s1, a) \<Rightarrow>
      case leaf s1 3 of (s2, b) \<Rightarrow>
        case sub f1 f2 s2 a (Ref b) of (s3, c) \<Rightarrow>
          data (s3 ! c) = 2 \<and>
          (\<exists>s4. backward s3 c = Some (Inr s4) \<and> grad (s4 ! a) = 1 \<and> grad (s4 ! b) = - 1))"
proof (intro conjI)
  show "sub f1 f2 s0 i (Ref j) = (case neg f1 s0 j of (s1, n) \<Rightarrow> add f2 s1 i (Ref n))"
    by (simp add: sub_def)
  show "neg f1 s0 j = mul f1 s0 j (Scalar (- 1))"
    by (simp add: neg_def)
  show "case leaf s 5 of (s1, a) \<Rightarrow>
      case leaf s1 3 of (s2, b) \<Rightarrow>
        case sub f1 f2 s2 a (Ref b) of (s3, c) \<Rightarrow>
          data (s3 ! c) = 2 \<and>
          (\<exists>s4. backward s3 c = Some (Inr s4) \<and> grad (s4 ! a) = 1 \<and> grad (s4 ! b) = - 1)"
    by (cases f1; cases f2) (simp_all add: builder_defs backward_defs nth_append)
qed

subsection \<open>Reachability and the order built by \<open>build_topo\<close>\<close>

lemma wf_from_nth:
  "wf_from k s = (\<forall>i < length s. wf_Value (k + i) (s ! i))"
proof (induction s arbitrary: k)
  case Nil
  show ?case by simp
next
  case (Cons n ns)
  show ?case
    by (auto simp: Cons.IH less_Suc_eq_0_disj)
qed

lemma wf_store_nth: "wf_store s = (\<forall>i < length s. wf_Value i (s ! i))"
  by (simp add: wf_store_def wf_from_nth)

lemma wf_store_prev_less:
  "wf_store s \<Longrightarrow> v < length s \<Longrightarrow> c \<in> set (prev (s ! v)) \<Longrightarrow> c < v"
  by (auto simp: wf_store_nth wf_Value_def list_all_iff)

lemma edges_less: "wf_store s \<Longrightarrow> (v, c) \<in> edges s \<Longrightarrow> c < v"
  by (auto simp: edges_def dest: wf_store_prev_less)

lemma reachable_self: "r \<in> reachable s r"
  by (simp add: reachable_def)

lemma reachable_le:
  assumes "wf_store s" and "u \<in> reachable s v"
  shows "u \<le> v"
proof -
  from assms(2) have "(v, u) \<in> (edges s)\<^sup>*" by (simp add: reachable_def)
  then show ?thesis
  proof (induction rule: rtrancl_induct)
    case base
    show ?case by simp
  next
    case (step y z)
    from edges_less [OF assms(1) step(2)] step(3) show ?case by simp
  qed
qed

lemma reachable_unfold:
  assumes "v < length s"
  shows "reachable s v = insert v (\<Union>c \<in> set (prev (s ! v)). reachable s c)"
proof (intro set_eqI iffI)
  fix u
  assume "u \<in> reachable s v"
  then have "(v, u) \<in> (edges s)\<^sup>*" by (simp add: reachable_def)
  then show "u \<in> insert v (\<Union>c \<in> set (prev (s ! v)). reachable s c)"
  proof (cases rule: converse_rtranclE)
    case base
    then show ?thesis by simp
  next
    case (step c)
    then show ?thesis by (auto simp: edges_def reachable_def)
  qed
next
  fix u
  assume "u \<in> insert v (\<Union>c \<in> set (prev (s ! v)). reachable s c)"
  then consider "u = v" | c where "c \<in> set (prev (s ! v))" "(c, u) \<in> (edges s)\<^sup>*"
    by (auto simp: reachable_def)
  then show "u \<in> reachable s v"
  proof cases
    case 1
    then show ?thesis by (simp add: reachable_self)
  next
    case 2
    from 2(1) assms have "(v, c) \<in> edges s" by (simp add: edges_def)
    with 2(2) show ?thesis
      unfolding reachable_def by (simp add: converse_rtrancl_into_rtrancl)
  qed
qed

lemma topo_ok_Nil: "topo_ok s []"
  by (simp add: topo_ok_def)

lemma topo_ok_closed:
  "topo_ok s t \<Longrightarrow> u \<in> set t \<Longrightarrow> c \<in> set (prev (s ! u)) \<Longrightarrow> c \<in> set t"
proof -
  assume ok: "topo_ok s t" and u: "u \<in> set t" and c: "c \<in> set (prev (s ! u))"
  from u obtain i where i: "i < length t" "t ! i = u" by (auto simp: in_set_conv_nth)
  with ok c obtain j where "j < i" "t ! j = c" unfolding topo_ok_def by blast
  with i have "j < length t" by simp
  with \<open>t ! j = c\<close> show "c \<in> set t" by (metis nth_mem)
qed

lemma topo_ok_snoc:
  assumes "topo_ok s t" and "v \<notin> set t" and "set (prev (s ! v)) \<subseteq> set t"
  shows "topo_ok s (t @ [v])"
  unfolding topo_ok_def
proof (intro conjI allI impI ballI)
  show "distinct (t @ [v])" using assms by (simp add: topo_ok_def)
next
  fix i c
  assume i: "i < length (t @ [v])" and c: "c \<in> set (prev (s ! ((t @ [v]) ! i)))"
  show "\<exists>j<i. (t @ [v]) ! j = c"
  proof (cases "i < length t")
    case True
    then have "(t @ [v]) ! i = t ! i" by (simp add: nth_append)
    with c have "c \<in> set (prev (s ! (t ! i)))" by simp
    with assms(1) True obtain j where j: "j < i" "t ! j = c"
      unfolding topo_ok_def by blast
    from j(1) True have "(t @ [v]) ! j = t ! j" by (simp add: nth_append)
    with j show ?thesis by auto
  next
    case False
    with i have il: "i = length t" by simp
    then have "(t @ [v]) ! i = v" by simp
    with c assms(3) have "c \<in> set t" by auto
    then obtain j where j: "j < length t" "t ! j = c"
      by (auto simp: in_set_conv_nth)
    from j(1) have "(t @ [v]) ! j = t ! j" by (simp add: nth_append)
    with j il show ?thesis by auto
  qed
qed

lemma closed_reachable:
  assumes "topo_ok s t" and "v \<in> set t" and "u \<in> reachable s v"
  shows "u \<in> set t"
proof -
  from assms(3) have "(v, u) \<in> (edges s)\<^sup>*" by (simp add: reachable_def)
  then show ?thesis
  proof (induction rule: rtrancl_induct)
    case base
    show ?case by (rule assms(2))
  next
    case (step y z)
    then show ?case using topo_ok_closed [OF assms(1)] by (auto simp: edges_def)
  qed
qed

lemma dfs_postI:
  "res = Some (topo @ new, visited \<union> R) \<Longrightarrow> topo_ok s (topo @ new) \<Longrightarrow>
   set (topo @ new) = set topo \<union> R \<Longrightarrow> dfs_post s R (topo, visited) res"
  unfolding dfs_post_def by blast

lemma for_each_children:
  assumes wf: "wf_store s"
    and IH: "\<And>c st. c < v \<Longrightarrow> dfs_pre s (Suc c) st \<Longrightarrow> dfs_post s (reachable s c) st (build_topo s c st)"
    and cs: "\<forall>c \<in> set cs. c < v"
    and pre: "dfs_pre s v st"
  shows "dfs_post s (\<Union>c \<in> set cs. reachable s c) st (for_each (build_topo s) cs st)"
  using cs pre
proof (induction cs arbitrary: st)
  case Nil
  then show ?case by (cases st) (simp add: dfs_post_def dfs_pre_def)
next
  case (Cons c cs)
  obtain topo visited where st: "st = (topo, visited)" by (cases st)
  from Cons.prems(1) have cv: "c < v" by simp
  from Cons.prems(2) cv have "dfs_pre s (Suc c) st"
    by (fastforce simp: dfs_pre_def st)
  from IH [OF cv this] obtain new1 where
    r1: "build_topo s c st = Some (topo @ new1, visited \<union> reachable s c)" and
    ok1: "topo_ok s (topo @ new1)" and
    set1: "set (topo @ new1) = set topo \<union> reachable s c"
    by (auto simp: dfs_post_def st)
  have pre1: "dfs_pre s v (topo @ new1, visited \<union> reachable s c)"
    using Cons.prems(2) ok1 set1 unfolding dfs_pre_def st by auto
  from Cons.prems(1) have "\<forall>c \<in> set cs. c < v" by simp
  from Cons.IH [OF this pre1] obtain new2 where
    r2: "for_each (build_topo s) cs (topo @ new1, visited \<union> reachable s c) =
           Some ((topo @ new1) @ new2, (visited \<union> reachable s c) \<union> (\<Union>c \<in> set cs. reachable s c))" and
    ok2: "topo_ok s ((topo @ new1) @ new2)" and
    set2: "set ((topo @ new1) @ new2) = set (topo @ new1) \<union> (\<Union>c \<in> set cs. reachable s c)"
    by (auto simp: dfs_post_def)
  have res: "for_each (build_topo s) (c # cs) st =
      Some (topo @ (new1 @ new2), visited \<union> (\<Union>c \<in> set (c # cs). reachable s c))"
    using r1 r2 by (simp add: Un_assoc)
  have set3: "set (topo @ (new1 @ new2)) = set topo \<union> (\<Union>c \<in> set (c # cs). reachable s c)"
    using set1 set2 by auto
  from ok2 have ok3: "topo_ok s (topo @ (new1 @ new2))" by simp
  show ?case
    unfolding st by (rule dfs_postI [OF res [unfolded st] ok3 set3])
qed

lemma build_topo_spec:
  assumes wf: "wf_store s"
  shows "v < length s \<Longrightarrow> dfs_pre s (Suc v) st \<Longrightarrow> dfs_post s (reachable s v) st (build_topo s v st)"
proof (induction v arbitrary: st rule: less_induct)
  case (less v)
  obtain topo visited where st: "st = (topo, visited)" by (cases st)
  from less.prems(2) have ok: "topo_ok s topo" and sub: "set topo \<subseteq> visited"
    and stack: "\<forall>u. u \<in> visited \<longrightarrow> u \<notin> set topo \<longrightarrow> Suc v \<le> u"
    by (auto simp: dfs_pre_def st)
  show ?case
  proof (cases "v \<in> visited")
    case True
    with stack have "v \<in> set topo" by fastforce
    then have "reachable s v \<subseteq> set topo"
      using closed_reachable [OF ok] by blast
    with sub have "visited \<union> reachable s v = visited" "set topo \<union> reachable s v = set topo"
      by auto
    moreover from True have "build_topo s v st = Some (topo, visited)"
      by (subst build_topo.simps) (simp add: st)
    ultimately show ?thesis
      using ok unfolding dfs_post_def st by (intro case_prodI exI [of _ "[]"]) simp
  next
    case False
    let ?cs = "prev (s ! v)"
    let ?R = "\<Union>c \<in> set ?cs. reachable s c"
    have cs: "\<forall>c \<in> set ?cs. c < v"
      using wf_store_prev_less [OF wf less.prems(1)] by blast
    have pre: "dfs_pre s v (topo, insert v visited)"
      using ok sub stack unfolding dfs_pre_def by auto
    have IH: "\<And>c st. c < v \<Longrightarrow> dfs_pre s (Suc c) st \<Longrightarrow>
        dfs_post s (reachable s c) st (build_topo s c st)"
      using less.IH less.prems(1) by simp
    from for_each_children [OF wf IH cs pre] obtain new where
      loop: "for_each (build_topo s) ?cs (topo, insert v visited) =
               Some (topo @ new, insert v visited \<union> ?R)" and
      ok1: "topo_ok s (topo @ new)" and
      set1: "set (topo @ new) = set topo \<union> ?R"
      by (auto simp: dfs_post_def)
    have unf: "reachable s v = insert v ?R"
      by (rule reachable_unfold [OF less.prems(1)])
    have "v \<notin> ?R"
    proof
      assume "v \<in> ?R"
      then obtain c where "c \<in> set ?cs" "v \<in> reachable s c" by blast
      with cs reachable_le [OF wf] show False by fastforce
    qed
    moreover from False sub have "v \<notin> set topo" by blast
    ultimately have notin: "v \<notin> set (topo @ new)" using set1 by simp
    have "set ?cs \<subseteq> set (topo @ new)"
      using set1 reachable_self by fastforce
    from topo_ok_snoc [OF ok1 notin this] have ok2: "topo_ok s (topo @ (new @ [v]))" by simp
    have res: "build_topo s v st = Some (topo @ (new @ [v]), visited \<union> reachable s v)"
      using False loop by (subst build_topo.simps) (simp add: st unf)
    have set2: "set (topo @ (new @ [v])) = set topo \<union> reachable s v"
      using set1 unf by auto
    show ?thesis
      unfolding st by (rule dfs_postI [OF res [unfolded st] ok2 set2])
  qed
qed

lemma build_topo_root:
  assumes "wf_store s" and "r < length s"
  shows "\<exists>topo. build_topo s r ([], {}) = Some (topo, reachable s r) \<and> topo_ok s topo \<and>
           set topo = reachable s r"
proof -
  have "dfs_pre s (Suc r) ([], {})" by (simp add: dfs_pre_def topo_ok_Nil)
  from build_topo_spec [OF assms this] show ?thesis
    by (auto simp: dfs_post_def)
qed

subsection \<open>What a backward pass leaves unchanged\<close>

lemma erase_grad_length: "erase_grad s' = erase_grad s \<Longrightarrow> length s' = length s"
  unfolding erase_grad_def by (rule map_eq_imp_length_eq)

lemma erase_grad_nth:
  assumes "erase_grad s' = erase_grad s" and "i < length s"
  shows "(s' ! i)\<lparr>grad := 0\<rparr> = (s ! i)\<lparr>grad := 0\<rparr>"
proof -
  have len: "i < length s'"
    using erase_grad_length [OF assms(1)] assms(2) by simp
  have "(s' ! i)\<lparr>grad := 0\<rparr> = erase_grad s' ! i"
    using len by (simp add: erase_grad_def)
  also have "\<dots> = erase_grad s ! i"
    by (simp only: assms(1))
  also have "\<dots> = (s ! i)\<lparr>grad := 0\<rparr>"
    using assms(2) by (simp add: erase_grad_def)
  finally show ?thesis .
qed

lemma erase_grad_fields:
  assumes "erase_grad s' = erase_grad s" and "i < length s"
  shows "data (s' ! i) = data (s ! i)" and "prev (s' ! i) = prev (s ! i)"
    and "bwd (s' ! i) = bwd (s ! i)" and "op (s' ! i) = op (s ! i)"
    and "label (s' ! i) = label (s ! i)"
proof -
  let ?a = "(s' ! i)\<lparr>grad := 0\<rparr>" and ?b = "(s ! i)\<lparr>grad := 0\<rparr>"
  have eq: "?a = ?b" by (rule erase_grad_nth [OF assms])
  have "data ?a = data ?b" "prev ?a = prev ?b" "bwd ?a = bwd ?b" "op ?a = op ?b" "label ?a = label ?b"
    by (simp_all only: eq)
  then show "data (s' ! i) = data (s ! i)" and "prev (s' ! i) = prev (s ! i)"
    and "bwd (s' ! i) = bwd (s ! i)" and "op (s' ! i) = op (s ! i)"
    and "label (s' ! i) = label (s ! i)"
    by simp_all
qed

lemma erase_grad_update:
  "erase_grad (s[v := (s ! v)\<lparr>grad := g\<rparr>]) = erase_grad s"
proof (cases "v < length s")
  case True
  then show ?thesis
    by (simp add: erase_grad_def map_update list_update_same_conv)
next
  case False
  then have "s[v := (s ! v)\<lparr>grad := g\<rparr>] = s"
    by (intro list_update_beyond) simp
  then show ?thesis by simp
qed

lemma erase_grad_grad_add: "erase_grad (grad_add s v c) = erase_grad s"
  unfolding grad_add_def by (rule erase_grad_update)

lemma erase_grad_seed: "erase_grad (seed s r) = erase_grad s"
  unfolding seed_def by (rule erase_grad_update)

lemma grad_add_other: "i \<noteq> v \<Longrightarrow> grad_add s v c ! i = s ! i"
  by (simp add: grad_add_def)

lemma call_backward_erase:
  "call_backward s v = Inr s' \<Longrightarrow> erase_grad s' = erase_grad s"
  by (cases "bwd (s ! v)")
    (auto simp: call_backward_def Let_def erase_grad_grad_add split: sum.splits)

lemma call_backward_other:
  "call_backward s v = Inr s' \<Longrightarrow> i \<notin> set (closure_operands (bwd (s ! v))) \<Longrightarrow> s' ! i = s ! i"
  by (cases "bwd (s ! v)")
    (auto simp: call_backward_def Let_def grad_add_other split: sum.splits)

lemma run_backward_erase: "erase_grad (final (run_backward s vs)) = erase_grad s"
proof (induction vs arbitrary: s)
  case Nil
  show ?case by simp
next
  case (Cons v vs)
  show ?case
  proof (cases "call_backward s v")
    case (Inl e)
    then show ?thesis by simp
  next
    case (Inr s')
    with Cons.IH [of s'] call_backward_erase [OF Inr] show ?thesis by simp
  qed
qed

lemma run_backward_other:
  assumes "\<forall>v \<in> set vs. v < length s \<and> i \<notin> set (closure_operands (bwd (s ! v)))"
  shows "final (run_backward s vs) ! i = s ! i"
  using assms
proof (induction vs arbitrary: s)
  case Nil
  show ?case by simp
next
  case (Cons v vs)
  show ?case
  proof (cases "call_backward s v")
    case (Inl e)
    then show ?thesis by simp
  next
    case (Inr s')
    have er: "erase_grad s' = erase_grad s" by (rule call_backward_erase [OF Inr])
    have "\<forall>u \<in> set vs. u < length s' \<and> i \<notin> set (closure_operands (bwd (s' ! u)))"
      using Cons.prems erase_grad_fields(3) [OF er] erase_grad_length [OF er] by simp
    from Cons.IH [OF this] have "final (run_backward s' vs) ! i = s' ! i" .
    moreover from Cons.prems have "i \<notin> set (closure_operands (bwd (s ! v)))" by simp
    from call_backward_other [OF Inr this] have "s' ! i = s ! i" .
    ultimately show ?thesis using Inr by simp
  qed
qed

lemma wf_store_operands:
  "wf_store s \<Longrightarrow> v < length s \<Longrightarrow> set (closure_operands (bwd (s ! v))) = set (prev (s ! v))"
  by (simp add: wf_store_nth wf_Value_def)

lemma reachable_step:
  "v \<in> reachable s r \<Longrightarrow> v < length s \<Longrightarrow> c \<in> set (prev (s ! v)) \<Longrightarrow> c \<in> reachable s r"
  unfolding reachable_def edges_def by (auto intro: rtrancl_into_rtrancl)

lemma backward_run:
  assumes "wf_store s" and "r < length s"
  shows "\<exists>topo. build_topo s r ([], {}) = Some (topo, reachable s r) \<and> topo_ok s topo \<and>
           set topo = reachable s r \<and>
           backward s r = Some (run_backward (seed s r) (rev topo))"
proof -
  from build_topo_root [OF assms] obtain topo where
    t: "build_topo s r ([], {}) = Some (topo, reachable s r)" "topo_ok s topo" "set topo = reachable s r"
    by blast
  then have "backward s r = Some (run_backward (seed s r) (rev topo))"
    by (simp add: backward_def)
  with t show ?thesis by blast
qed

lemma square_store_eq:
  "square_store =
     [\<lparr>data = 3, grad = 0, prev = [], bwd = Noop, op = Op_none, label = []\<rparr>,
      \<lparr>data = 9, grad = 0, prev = [0], bwd = Mul_backward 0 0, op = Op_mul, label = []\<rparr>]"
  by (simp add: square_store_def builder_defs)

lemma wf_square_store: "wf_store square_store"
  by (simp add: square_store_eq wf_store_def wf_Value_def)

lemma length_square_store: "length square_store = 2"
  by (simp add: square_store_eq)

lemma backward_frame:
  assumes wf: "wf_store s" and r: "r < length s"
  shows "\<exists>res. backward s r = Some res \<and> erase_grad (final res) = erase_grad s \<and>
           grad (final res ! r) = 1 \<and> (\<forall>i. i \<notin> reachable s r \<longrightarrow> final res ! i = s ! i)"
proof -
  from backward_run [OF wf r] obtain topo where
    st: "set topo = reachable s r" and
    bw: "backward s r = Some (run_backward (seed s r) (rev topo))"
    by blast
  let ?s0 = "seed s r"
  let ?res = "run_backward ?s0 (rev topo)"
  have er0: "erase_grad ?s0 = erase_grad s" by (rule erase_grad_seed)
  have len0: "length ?s0 = length s" by (simp add: seed_def)
  have ops: "v < length ?s0 \<and> set (closure_operands (bwd (?s0 ! v))) = set (prev (s ! v))"
    if "v \<in> reachable s r" for v
  proof -
    from reachable_le [OF wf that] r have v: "v < length s" by simp
    with erase_grad_fields(3) [OF er0 v] wf_store_operands [OF wf v] len0 show ?thesis by simp
  qed
  have er: "erase_grad (final ?res) = erase_grad s"
    using run_backward_erase [of ?s0 "rev topo"] er0 by simp
  have "\<forall>v \<in> set (rev topo). v < length ?s0 \<and> r \<notin> set (closure_operands (bwd (?s0 ! v)))"
  proof
    fix v assume "v \<in> set (rev topo)"
    with st have v: "v \<in> reachable s r" by simp
    from reachable_le [OF wf v] r have vl: "v < length s" and vr: "v \<le> r" by simp_all
    have "r \<notin> set (prev (s ! v))"
      using wf_store_prev_less [OF wf vl, of r] vr by auto
    with ops [OF v] show "v < length ?s0 \<and> r \<notin> set (closure_operands (bwd (?s0 ! v)))" by simp
  qed
  from run_backward_other [OF this] have "final ?res ! r = ?s0 ! r" .
  with r have root: "grad (final ?res ! r) = 1" by (simp add: seed_def)
  have other: "final ?res ! i = s ! i" if i: "i \<notin> reachable s r" for i
  proof -
    have "\<forall>v \<in> set (rev topo). v < length ?s0 \<and> i \<notin> set (closure_operands (bwd (?s0 ! v)))"
    proof
      fix v assume "v \<in> set (rev topo)"
      with st have v: "v \<in> reachable s r" by simp
      from reachable_le [OF wf v] r have vl: "v < length s" by simp
      have "i \<notin> set (prev (s ! v))"
        using reachable_step [OF v vl, of i] i by auto
      with ops [OF v] show "v < length ?s0 \<and> i \<notin> set (closure_operands (bwd (?s0 ! v)))" by simp
    qed
    from run_backward_other [OF this] have "final ?res ! i = ?s0 ! i" .
    moreover from i reachable_self [of r s] have "i \<noteq> r" by auto
    ultimately show ?thesis by (simp add: seed_def)
  qed
  from bw er root other show ?thesis by blast
qed

text \<open>
  Claim C3. A call of \<open>backward()\<close> on a root of a well-formed store comes back, and
  after it the root's \<open>grad\<close> is exactly \<open>1\<close>, whatever it was before: the seed is an
  assignment, and no closure that runs afterwards adds to the root.
\<close>

theorem backward_root_grad_one:
  assumes "wf_store s" and "r < length s"
  shows "\<exists>res. backward s r = Some res \<and> grad (final res ! r) = 1"
  using backward_frame [OF assms] by blast

theorem backward_root_grad_one_witness:
  "wf_store square_store \<and> 1 < length square_store \<and>
   (\<exists>res. backward square_store 1 = Some res \<and> grad (final res ! 1) = 1)"
proof -
  have r: "1 < length square_store" by (simp add: length_square_store)
  from wf_square_store r backward_root_grad_one [OF wf_square_store r] show ?thesis by simp
qed

text \<open>
  Claim C10. \<open>Value.__init__\<close> installs \<open>lambda: None\<close> as \<open>_backward\<close>. So
  \<open>backward()\<close> on an object without operands that still holds it returns, and its
  only effect is that the object's \<open>grad\<close> becomes \<open>1\<close>; in particular for a leaf
  just made by \<open>Value(x)\<close>.
\<close>

theorem backward_leaf:
  "bwd (fst (Value_init flip s0 d children tag lbl) ! snd (Value_init flip s0 d children tag lbl)) = Noop \<and>
   (r < length s \<longrightarrow> prev (s ! r) = [] \<longrightarrow> bwd (s ! r) = Noop \<longrightarrow>
      backward s r = Some (Inr (s[r := (s ! r)\<lparr>grad := 1\<rparr>]))) \<and>
   (case leaf s x of (s1, a) \<Rightarrow>
      backward s1 a =
        Some (Inr (s @ [\<lparr>data = x, grad = 1, prev = [], bwd = Noop, op = Op_none, label = []\<rparr>])))"
  by (simp add: builder_defs backward_defs)

theorem backward_leaf_witness:
  "backward [\<lparr>data = 2, grad = 0, prev = [], bwd = Noop, op = Op_none, label = []\<rparr>] 0 =
     Some (Inr [\<lparr>data = 2, grad = 1, prev = [], bwd = Noop, op = Op_none, label = []\<rparr>])"
  using backward_leaf [where s = "[\<lparr>data = 2, grad = 0, prev = [], bwd = Noop, op = Op_none, label = []\<rparr>]" and r = 0]
  by simp

subsection \<open>The closures called by a pass\<close>












subsection \<open>The operators extend the store and keep it well-formed\<close>

lemma wf_store_snoc: "wf_store (s @ [n]) = (wf_store s \<and> wf_Value (length s) n)"
  by (auto simp: wf_store_nth nth_append less_Suc_eq)

lemma set_of_set [simp]: "set (set_of flip cs) = set cs"
  by (simp add: set_of_def)

lemma set_of_distinct [simp]: "distinct (set_of flip cs)"
  by (simp add: set_of_def)

lemma set_of_single [simp]: "set_of flip [c] = [c]"
  by (simp add: set_of_def)

lemma set_of_Nil [simp]: "set_of flip [] = []"
  by (simp add: set_of_def)

lemma set_of_eq_Nil [simp]: "(set_of flip cs = []) = (cs = [])"
  using set_of_set [of flip cs] by (metis set_empty)

lemma Value_init_eq:
  "Value_init flip s d cs tag lbl =
     (s @ [\<lparr>data = d, grad = 0, prev = set_of flip cs, bwd = Noop, op = tag, label = lbl\<rparr>], length s)"
  by (simp add: Value_init_def)

lemma add_Ref:
  "j < length s \<Longrightarrow> add flip s i (Ref j) =
     (s @ [\<lparr>data = data (s ! i) + data (s ! j), grad = 0, prev = set_of flip [i, j],
            bwd = Add_backward i j, op = Op_add, label = []\<rparr>], length s)"
  by (simp add: add_def wrap_def Value_init_def set_backward_def)

lemma add_Scalar:
  "i < length s \<Longrightarrow> add flip s i (Scalar x) =
     (s @ [\<lparr>data = x, grad = 0, prev = [], bwd = Noop, op = Op_none, label = []\<rparr>,
           \<lparr>data = data (s ! i) + x, grad = 0, prev = set_of flip [i, length s],
            bwd = Add_backward i (length s), op = Op_add, label = []\<rparr>], Suc (length s))"
  by (simp add: add_def wrap_def leaf_def Value_init_def set_backward_def nth_append)

lemma mul_Ref:
  "j < length s \<Longrightarrow> mul flip s i (Ref j) =
     (s @ [\<lparr>data = data (s ! i) * data (s ! j), grad = 0, prev = set_of flip [i, j],
            bwd = Mul_backward i j, op = Op_mul, label = []\<rparr>], length s)"
  by (simp add: mul_def wrap_def Value_init_def set_backward_def)

lemma mul_Scalar:
  "i < length s \<Longrightarrow> mul flip s i (Scalar x) =
     (s @ [\<lparr>data = x, grad = 0, prev = [], bwd = Noop, op = Op_none, label = []\<rparr>,
           \<lparr>data = data (s ! i) * x, grad = 0, prev = set_of flip [i, length s],
            bwd = Mul_backward i (length s), op = Op_mul, label = []\<rparr>], Suc (length s))"
  by (simp add: mul_def wrap_def leaf_def Value_init_def set_backward_def nth_append)

lemma tanh_op_eq:
  "tanh_op s i =
     (s @ [\<lparr>data = (exp (2 * data (s ! i)) - 1) / (exp (2 * data (s ! i)) + 1), grad = 0,
            prev = [i],
            bwd = Tanh_backward i ((exp (2 * data (s ! i)) - 1) / (exp (2 * data (s ! i)) + 1)),
            op = Op_tanh, label = []\<rparr>], length s)"
  by (simp add: tanh_op_def Value_init_def set_backward_def Let_def)

lemma exp_op_eq:
  "exp_op s i =
     (s @ [\<lparr>data = exp (data (s ! i)), grad = 0, prev = [i], bwd = Exp_backward i,
            op = Op_exp, label = []\<rparr>], length s)"
  by (simp add: exp_op_def Value_init_def set_backward_def)

lemma pow_Inr:
  "pow s i other = Inr (s', out) \<Longrightarrow>
     \<exists>k d. other = Scalar k \<and> py_pow (data (s ! i)) k = Inr d \<and> out = length s \<and>
       s' = s @ [\<lparr>data = d, grad = 0, prev = [i], bwd = Pow_backward i k, op = Op_pow k,
                  label = []\<rparr>]"
  by (auto simp: pow_def Value_init_def set_backward_def split: operand.splits sum.splits)

lemma extends_append: "extends s (s @ ns)"
  by (simp add: extends_def)

lemma extends_trans:
  assumes "extends s s1" and "extends s1 s2"
  shows "extends s s2"
proof -
  from assms have l1: "length s \<le> length s1" and l2: "length s1 \<le> length s2"
    and t1: "take (length s) s1 = s" and t2: "take (length s1) s2 = s1"
    by (simp_all add: extends_def)
  have "take (length s) s2 = take (length s) (take (length s1) s2)"
    using l1 by (simp add: min_def)
  also have "\<dots> = s" by (simp only: t2 t1)
  finally show ?thesis using l1 l2 by (simp add: extends_def)
qed

lemma extends_nth:
  assumes "extends s s'" and "i < length s"
  shows "s' ! i = s ! i"
proof -
  from assms(2) have "take (length s) s' ! i = s' ! i" by simp
  with assms(1) show ?thesis by (simp add: extends_def)
qed

lemma extends_Value_init: "extends s (fst (Value_init flip s d cs tag lbl))"
  by (simp add: Value_init_eq extends_append)

lemma extends_add: "extends s (fst (add flip s i other))"
  by (cases other) (simp_all add: add_def wrap_def leaf_def Value_init_def set_backward_def extends_def)

lemma extends_mul: "extends s (fst (mul flip s i other))"
  by (cases other) (simp_all add: mul_def wrap_def leaf_def Value_init_def set_backward_def extends_def)

lemma wf_Value_new:
  assumes "\<forall>c \<in> set cs. c < k" and "set (closure_operands f) = set cs"
    and "tag \<noteq> Op_none" and "f \<noteq> Noop"
  shows "wf_Value k \<lparr>data = d, grad = g, prev = set_of flip cs, bwd = f, op = tag, label = l\<rparr>"
  using assms by (simp add: wf_Value_def list_all_iff)

lemma wf_Value_leaf:
  "wf_Value k \<lparr>data = d, grad = g, prev = [], bwd = Noop, op = Op_none, label = l\<rparr>"
  by (simp add: wf_Value_def)

lemma wf_Value_init: "wf_store s \<Longrightarrow> wf_store (fst (Value_init flip s d [] Op_none lbl))"
  by (simp add: Value_init_eq wf_store_snoc wf_Value_leaf)

lemma wf_add:
  assumes "wf_store s" and "i < length s" and "valid_operand s other"
  shows "wf_store (fst (add flip s i other))"
proof (cases other)
  case (Scalar x)
  have "wf_store (s @ [\<lparr>data = x, grad = 0, prev = [], bwd = Noop, op = Op_none, label = []\<rparr>])"
    using assms(1) by (simp add: wf_store_snoc wf_Value_leaf)
  moreover have "wf_Value (Suc (length s))
      \<lparr>data = data (s ! i) + x, grad = 0, prev = set_of flip [i, length s],
        bwd = Add_backward i (length s), op = Op_add, label = []\<rparr>"
    using assms(2) by (intro wf_Value_new) auto
  ultimately show ?thesis
    using wf_store_snoc [of "s @ [\<lparr>data = x, grad = 0, prev = [], bwd = Noop, op = Op_none, label = []\<rparr>]"]
    by (simp add: Scalar add_Scalar [OF assms(2)])
next
  case (Ref j)
  with assms(3) have j: "j < length s" by (simp add: valid_operand_def)
  have "wf_Value (length s)
      \<lparr>data = data (s ! i) + data (s ! j), grad = 0, prev = set_of flip [i, j],
        bwd = Add_backward i j, op = Op_add, label = []\<rparr>"
    using assms(2) j by (intro wf_Value_new) auto
  with assms(1) show ?thesis
    by (simp add: Ref add_Ref [OF j] wf_store_snoc)
qed

lemma wf_mul:
  assumes "wf_store s" and "i < length s" and "valid_operand s other"
  shows "wf_store (fst (mul flip s i other))"
proof (cases other)
  case (Scalar x)
  have "wf_store (s @ [\<lparr>data = x, grad = 0, prev = [], bwd = Noop, op = Op_none, label = []\<rparr>])"
    using assms(1) by (simp add: wf_store_snoc wf_Value_leaf)
  moreover have "wf_Value (Suc (length s))
      \<lparr>data = data (s ! i) * x, grad = 0, prev = set_of flip [i, length s],
        bwd = Mul_backward i (length s), op = Op_mul, label = []\<rparr>"
    using assms(2) by (intro wf_Value_new) auto
  ultimately show ?thesis
    using wf_store_snoc [of "s @ [\<lparr>data = x, grad = 0, prev = [], bwd = Noop, op = Op_none, label = []\<rparr>]"]
    by (simp add: Scalar mul_Scalar [OF assms(2)])
next
  case (Ref j)
  with assms(3) have j: "j < length s" by (simp add: valid_operand_def)
  have "wf_Value (length s)
      \<lparr>data = data (s ! i) * data (s ! j), grad = 0, prev = set_of flip [i, j],
        bwd = Mul_backward i j, op = Op_mul, label = []\<rparr>"
    using assms(2) j by (intro wf_Value_new) auto
  with assms(1) show ?thesis
    by (simp add: Ref mul_Ref [OF j] wf_store_snoc)
qed

lemma out_add:
  "i < length s \<Longrightarrow> valid_operand s other \<Longrightarrow> snd (add flip s i other) < length (fst (add flip s i other))"
  by (cases other) (simp_all add: add_Scalar add_Ref valid_operand_def)

lemma out_mul:
  "i < length s \<Longrightarrow> valid_operand s other \<Longrightarrow> snd (mul flip s i other) < length (fst (mul flip s i other))"
  by (cases other) (simp_all add: mul_Scalar mul_Ref valid_operand_def)

lemma length_extends: "extends s s' \<Longrightarrow> i < length s \<Longrightarrow> i < length s'"
  by (simp add: extends_def)

lemma wf_neg: "wf_store s \<Longrightarrow> i < length s \<Longrightarrow> wf_store (fst (neg flip s i))"
  unfolding neg_def by (rule wf_mul) (simp_all add: valid_operand_def)

lemma extends_neg: "extends s (fst (neg flip s i))"
  unfolding neg_def by (rule extends_mul)

lemma out_neg: "i < length s \<Longrightarrow> snd (neg flip s i) < length (fst (neg flip s i))"
  unfolding neg_def by (rule out_mul) (simp_all add: valid_operand_def)

lemma sub_Ref:
  "sub flip_neg flip s i (Ref j) = add flip (fst (neg flip_neg s j)) i (Ref (snd (neg flip_neg s j)))"
  by (simp add: sub_def split: prod.splits)

lemma wf_sub:
  assumes "wf_store s" and "i < length s" and "valid_operand s other"
  shows "wf_store (fst (sub flip_neg flip s i other))"
proof (cases other)
  case (Scalar x)
  then show ?thesis
    using wf_add [OF assms(1,2), of "Scalar (- x)" flip] by (simp add: sub_def valid_operand_def)
next
  case (Ref j)
  with assms(3) have j: "j < length s" by (simp add: valid_operand_def)
  let ?s1 = "fst (neg flip_neg s j)"
  have "wf_store ?s1" by (rule wf_neg [OF assms(1) j])
  moreover have "i < length ?s1" by (rule length_extends [OF extends_neg assms(2)])
  moreover have "valid_operand ?s1 (Ref (snd (neg flip_neg s j)))"
    using out_neg [OF j] by (simp add: valid_operand_def)
  ultimately show ?thesis unfolding Ref sub_Ref by (rule wf_add)
qed

lemma wf_tanh_op: "wf_store s \<Longrightarrow> i < length s \<Longrightarrow> wf_store (fst (tanh_op s i))"
  by (simp add: tanh_op_eq wf_store_snoc wf_Value_def)

lemma wf_exp_op: "wf_store s \<Longrightarrow> i < length s \<Longrightarrow> wf_store (fst (exp_op s i))"
  by (simp add: exp_op_eq wf_store_snoc wf_Value_def)

lemma wf_pow:
  assumes "wf_store s" and "i < length s" and "pow s i other = Inr (s', out)"
  shows "wf_store s'"
proof -
  from pow_Inr [OF assms(3)] obtain k d where
    "s' = s @ [\<lparr>data = d, grad = 0, prev = [i], bwd = Pow_backward i k, op = Op_pow k, label = []\<rparr>]"
    by blast
  with assms(1,2) show ?thesis by (simp add: wf_store_snoc wf_Value_def)
qed

lemma extends_pow: "pow s i other = Inr (s', out) \<Longrightarrow> extends s s' \<and> out < length s'"
  using pow_Inr [of s i other s' out] by (auto simp: extends_append)

lemma truediv_Inr:
  assumes "truediv flip s i other = Inr (s', out)"
  shows "(\<exists>j s1 p. other = Ref j \<and> pow s j (Scalar (- 1)) = Inr (s1, p) \<and>
            (s', out) = mul flip s1 i (Ref p)) \<or>
         (\<exists>x y. other = Scalar x \<and> py_pow x (- 1) = Inr y \<and> (s', out) = mul flip s i (Scalar y))"
  using assms by (auto simp: truediv_def split: operand.splits sum.splits)

lemma wf_truediv:
  assumes wf: "wf_store s" and i: "i < length s" and v: "valid_operand s other"
    and res: "truediv flip s i other = Inr (s', out)"
  shows "wf_store s'"
  using truediv_Inr [OF res]
proof (elim disjE exE conjE)
  fix j s1 p
  assume o: "other = Ref j" and p: "pow s j (Scalar (- 1)) = Inr (s1, p)"
    and m: "(s', out) = mul flip s1 i (Ref p)"
  from o v have j: "j < length s" by (simp add: valid_operand_def)
  have "wf_store s1" by (rule wf_pow [OF wf j p])
  moreover from extends_pow [OF p] have e: "extends s s1" and pl: "p < length s1" by simp_all
  from length_extends [OF e i] have "i < length s1" .
  moreover from pl have "valid_operand s1 (Ref p)" by (simp add: valid_operand_def)
  ultimately have "wf_store (fst (mul flip s1 i (Ref p)))" by (rule wf_mul)
  with m show ?thesis by (metis fst_conv)
next
  fix x y
  assume m: "(s', out) = mul flip s i (Scalar y)"
  have "wf_store (fst (mul flip s i (Scalar y)))"
    by (rule wf_mul [OF wf i]) (simp add: valid_operand_def)
  with m show ?thesis by (metis fst_conv)
qed

lemma wf_store_erase:
  assumes "erase_grad s' = erase_grad s" and "wf_store s"
  shows "wf_store s'"
proof -
  have len: "length s' = length s" by (rule erase_grad_length [OF assms(1)])
  have "wf_Value i (s' ! i)" if i: "i < length s" for i
  proof -
    from assms(2) i have "wf_Value i (s ! i)" by (simp add: wf_store_nth)
    then show ?thesis
      unfolding wf_Value_def
      by (simp only: erase_grad_fields(2,3,4) [OF assms(1) i])
  qed
  with len show ?thesis by (simp add: wf_store_nth)
qed

lemma backward_erase:
  assumes "backward s r = Some res"
  shows "erase_grad (final res) = erase_grad s"
proof -
  from assms obtain topo where "res = run_backward (seed s r) (rev topo)"
    by (auto simp: backward_def split: option.splits)
  then show ?thesis
    using run_backward_erase [of "seed s r" "rev topo"] erase_grad_seed [of s r] by simp
qed

lemma constructible_wf: "constructible s \<Longrightarrow> wf_store s"
proof (induction rule: constructible.induct)
  case c_empty
  show ?case by (simp add: wf_store_def)
next
  case (c_Value s d lbl)
  then show ?case by (simp add: wf_Value_init)
next
  case (c_add s self other flip)
  then show ?case by (simp add: wf_add)
next
  case (c_mul s self other flip)
  then show ?case by (simp add: wf_mul)
next
  case (c_neg s self flip)
  then show ?case by (simp add: wf_neg)
next
  case (c_sub s self other flip_neg flip)
  then show ?case by (simp add: wf_sub)
next
  case (c_rmul s self other flip)
  then show ?case by (simp add: rmul_def wf_mul)
next
  case (c_tanh s self)
  then show ?case by (simp add: wf_tanh_op)
next
  case (c_exp s self)
  then show ?case by (simp add: wf_exp_op)
next
  case (c_pow s self other s' out)
  then show ?case using wf_pow by blast
next
  case (c_truediv s self other flip s' out)
  then show ?case using wf_truediv by blast
next
  case (c_backward s self res)
  from wf_store_erase [OF backward_erase [OF c_backward.hyps(3)] c_backward.IH] show ?case .
qed

lemma extends_sub: "extends s (fst (sub flip_neg flip s i other))"
proof (cases other)
  case (Scalar x)
  then show ?thesis by (simp add: sub_def extends_add)
next
  case (Ref j)
  have "extends s (fst (neg flip_neg s j))" by (rule extends_neg)
  then show ?thesis
    unfolding Ref sub_Ref by (rule extends_trans) (rule extends_add)
qed

lemma extends_truediv:
  assumes "truediv flip s i other = Inr (s', out)"
  shows "extends s s'"
  using truediv_Inr [OF assms]
proof (elim disjE exE conjE)
  fix j s1 p
  assume p: "pow s j (Scalar (- 1)) = Inr (s1, p)" and m: "(s', out) = mul flip s1 i (Ref p)"
  from extends_pow [OF p] have "extends s s1" by simp
  moreover have "extends s1 (fst (mul flip s1 i (Ref p)))" by (rule extends_mul)
  ultimately have "extends s (fst (mul flip s1 i (Ref p)))" by (rule extends_trans)
  with m show ?thesis by (metis fst_conv)
next
  fix x y
  assume m: "(s', out) = mul flip s i (Scalar y)"
  have "extends s (fst (mul flip s i (Scalar y)))" by (rule extends_mul)
  with m show ?thesis by (metis fst_conv)
qed

text \<open>
  Claim C8. No public operation changes the \<open>data\<close> of an object that exists. Every
  operator leaves the store it starts from as it is and appends its new objects (and
  where \<open>__pow__\<close> or \<open>__truediv__\<close> raise, nothing has been written). A call of
  \<open>backward()\<close>, whether it returns or raises, changes no \<open>data\<close>, operand set,
  closure, tag or label of any object, and no field at all of an object that is not
  reachable from the root.
\<close>

theorem operations_frame:
  "extends s (fst (Value_init flip s d cs tag lbl)) \<and>
   extends s (fst (leaf s d)) \<and>
   extends s (fst (add flip s i other)) \<and>
   extends s (fst (mul flip s i other)) \<and>
   extends s (fst (rmul flip s i other)) \<and>
   extends s (fst (neg flip s i)) \<and>
   extends s (fst (sub flip_neg flip s i other)) \<and>
   extends s (fst (tanh_op s i)) \<and>
   extends s (fst (exp_op s i)) \<and>
   (\<forall>s' out. pow s i other = Inr (s', out) \<longrightarrow> extends s s') \<and>
   (\<forall>s' out. truediv flip s i other = Inr (s', out) \<longrightarrow> extends s s') \<and>
   (extends s s' \<longrightarrow> (\<forall>k < length s. s' ! k = s ! k)) \<and>
   (wf_store s \<and> r < length s \<longrightarrow>
      (\<exists>res. backward s r = Some res \<and> length (final res) = length s \<and>
         (\<forall>k < length s.
            data (final res ! k) = data (s ! k) \<and> prev (final res ! k) = prev (s ! k) \<and>
            op (final res ! k) = op (s ! k) \<and> bwd (final res ! k) = bwd (s ! k) \<and>
            label (final res ! k) = label (s ! k)) \<and>
         (\<forall>k. k \<notin> reachable s r \<longrightarrow> final res ! k = s ! k)))"
proof (intro conjI)
  show "extends s (fst (Value_init flip s d cs tag lbl))" by (rule extends_Value_init)
  show "extends s (fst (leaf s d))" by (simp add: leaf_def extends_Value_init)
  show "extends s (fst (add flip s i other))" by (rule extends_add)
  show "extends s (fst (mul flip s i other))" by (rule extends_mul)
  show "extends s (fst (rmul flip s i other))" by (simp add: rmul_def extends_mul)
  show "extends s (fst (neg flip s i))" by (simp add: neg_def extends_mul)
  show "extends s (fst (sub flip_neg flip s i other))" by (rule extends_sub)
  show "extends s (fst (tanh_op s i))" by (simp add: tanh_op_eq extends_append)
  show "extends s (fst (exp_op s i))" by (simp add: exp_op_eq extends_append)
  show "\<forall>s' out. pow s i other = Inr (s', out) \<longrightarrow> extends s s'"
    using extends_pow by blast
  show "\<forall>s' out. truediv flip s i other = Inr (s', out) \<longrightarrow> extends s s'"
    using extends_truediv by blast
  show "extends s s' \<longrightarrow> (\<forall>k < length s. s' ! k = s ! k)"
    using extends_nth by blast
  show "wf_store s \<and> r < length s \<longrightarrow>
      (\<exists>res. backward s r = Some res \<and> length (final res) = length s \<and>
         (\<forall>k < length s.
            data (final res ! k) = data (s ! k) \<and> prev (final res ! k) = prev (s ! k) \<and>
            op (final res ! k) = op (s ! k) \<and> bwd (final res ! k) = bwd (s ! k) \<and>
            label (final res ! k) = label (s ! k)) \<and>
         (\<forall>k. k \<notin> reachable s r \<longrightarrow> final res ! k = s ! k))"
  proof
    assume a: "wf_store s \<and> r < length s"
    then have wf: "wf_store s" and r: "r < length s" by simp_all
    from backward_frame [OF wf r] obtain res where
      bw: "backward s r = Some res" and er: "erase_grad (final res) = erase_grad s" and
      other: "\<forall>i. i \<notin> reachable s r \<longrightarrow> final res ! i = s ! i"
      by blast
    have "length (final res) = length s" by (rule erase_grad_length [OF er])
    moreover have "\<forall>k < length s.
            data (final res ! k) = data (s ! k) \<and> prev (final res ! k) = prev (s ! k) \<and>
            op (final res ! k) = op (s ! k) \<and> bwd (final res ! k) = bwd (s ! k) \<and>
            label (final res ! k) = label (s ! k)"
      using erase_grad_fields [OF er] by simp
    ultimately show "\<exists>res. backward s r = Some res \<and> length (final res) = length s \<and>
         (\<forall>k < length s.
            data (final res ! k) = data (s ! k) \<and> prev (final res ! k) = prev (s ! k) \<and>
            op (final res ! k) = op (s ! k) \<and> bwd (final res ! k) = bwd (s ! k) \<and>
            label (final res ! k) = label (s ! k)) \<and>
         (\<forall>k. k \<notin> reachable s r \<longrightarrow> final res ! k = s ! k)"
      using bw other by blast
  qed
qed

theorem operations_frame_witness:
  "wf_store square_store \<and> 1 < length square_store \<and>
   extends square_store (fst (mul False square_store 1 (Scalar 2))) \<and>
   data (fst (mul False square_store 1 (Scalar 2)) ! 1) = data (square_store ! 1) \<and>
   (\<exists>res. backward square_store 1 = Some res \<and> data (final res ! 0) = data (square_store ! 0))"
proof -
  have r: "1 < length square_store" by (simp add: length_square_store)
  have z: "0 < length square_store" by (simp add: length_square_store)
  note f = operations_frame [where s = square_store and r = 1 and i = 1 and other = "Scalar 2"
      and flip = False and s' = "fst (mul False square_store 1 (Scalar 2))"]
  from f have e: "extends square_store (fst (mul False square_store 1 (Scalar 2)))" by blast
  with f r have d: "fst (mul False square_store 1 (Scalar 2)) ! 1 = square_store ! 1" by blast
  from f wf_square_store r z
  have "\<exists>res. backward square_store 1 = Some res \<and> data (final res ! 0) = data (square_store ! 0)"
    by blast
  with wf_square_store r e d show ?thesis by simp
qed

subsection \<open>Division by zero\<close>

lemma zero_store_eq:
  "zero_store =
     [\<lparr>data = 1, grad = 0, prev = [], bwd = Noop, op = Op_none, label = []\<rparr>,
      \<lparr>data = 0, grad = 0, prev = [], bwd = Noop, op = Op_none, label = []\<rparr>]"
  by (simp add: zero_store_def builder_defs)

lemma py_pow_zero_neg: "py_pow 0 (- 1) = Inl ZeroDivisionError"
  by (simp add: py_pow_def)

text \<open>
  Claim C4, as amended. Dividing by a \<open>Value\<close> whose \<open>data\<close> is zero, or by the number
  zero, raises \<open>ZeroDivisionError\<close>: \<open>__truediv__\<close> computes \<open>other ** -1\<close> first, and
  Python's power of zero to a negative exponent raises. No object is created.
\<close>

theorem truediv_by_zero_raises:
  "(data (s ! j) = 0 \<longrightarrow>
      pow s j (Scalar (- 1)) = Inl ZeroDivisionError \<and>
      truediv flip s i (Ref j) = Inl ZeroDivisionError) \<and>
   truediv flip s i (Scalar 0) = Inl ZeroDivisionError"
  by (simp add: truediv_def pow_def py_pow_zero_neg)

theorem truediv_by_zero_raises_witness:
  "data (zero_store ! 1) = 0 \<and> truediv False zero_store 0 (Ref 1) = Inl ZeroDivisionError"
proof -
  have d: "data (zero_store ! 1) = 0" by (simp add: zero_store_eq)
  with truediv_by_zero_raises [where s = zero_store and j = 1 and i = 0 and flip = False]
  show ?thesis by blast
qed

text \<open>
  The claim as it was stated, that such a division does not fail, is false:
  for \<open>a = Value(1.0)\<close> and \<open>z = Value(0.0)\<close>, \<open>a / z\<close> raises, and so does \<open>a / 0\<close>.
\<close>

theorem truediv_by_zero_counterexample:
  "zero_store = fst (leaf (fst (leaf [] 1)) 0) \<and>
   data (zero_store ! 1) = 0 \<and>
   truediv False zero_store 0 (Ref 1) = Inl ZeroDivisionError \<and>
   truediv False zero_store 0 (Scalar 0) = Inl ZeroDivisionError"
  by (simp add: zero_store_eq truediv_def pow_def py_pow_zero_neg) (simp add: builder_defs)

subsection \<open>The operand set\<close>

lemma closure_operands_Nil: "(closure_operands f = []) = (f = Noop)"
  by (cases f) simp_all

text \<open>
  Claim C9, as amended. The operand collection \<open>_prev\<close> of every object is a set: it
  holds each object that was consumed as an operand once (an operand used twice, as
  in \<open>a * a\<close>, has one entry), in no order fixed by the program, and only objects
  created earlier. It is empty exactly for the objects made from a raw scalar.
\<close>

theorem prev_is_operand_set:
  assumes "constructible s" and "i < length s"
  shows "distinct (prev (s ! i)) \<and>
         set (prev (s ! i)) = set (closure_operands (bwd (s ! i))) \<and>
         (\<forall>c \<in> set (prev (s ! i)). c < i) \<and>
         ((prev (s ! i) = []) = (op (s ! i) = Op_none)) \<and>
         ((prev (s ! i) = []) = (bwd (s ! i) = Noop))"
proof -
  from constructible_wf [OF assms(1)] assms(2) have wf: "wf_Value i (s ! i)"
    by (simp add: wf_store_nth)
  then have eq: "set (closure_operands (bwd (s ! i))) = set (prev (s ! i))"
    by (simp add: wf_Value_def)
  have "(prev (s ! i) = []) = (closure_operands (bwd (s ! i)) = [])"
    using eq by (metis set_empty)
  then have leaf: "(prev (s ! i) = []) = (bwd (s ! i) = Noop)"
    by (simp add: closure_operands_Nil)
  with wf eq show ?thesis
    by (simp add: wf_Value_def list_all_iff)
qed

lemma constructible_square_store: "constructible square_store"
proof -
  have 1: "constructible (fst (Value_init False [] 3 [] Op_none []))"
    by (rule c_Value [OF c_empty])
  have "constructible (fst (mul False (fst (Value_init False [] 3 [] Op_none [])) 0 (Ref 0)))"
    by (rule c_mul [OF 1]) (simp_all add: Value_init_def valid_operand_def)
  then show ?thesis by (simp add: square_store_def leaf_def)
qed

theorem prev_is_operand_set_witness:
  "constructible square_store \<and> 1 < length square_store \<and>
   prev (square_store ! 1) = [0] \<and>
   set (prev (square_store ! 1)) = set (closure_operands (bwd (square_store ! 1)))"
proof -
  have r: "1 < length square_store" by (simp add: length_square_store)
  have p: "prev (square_store ! 1) = [0]" by (simp add: square_store_eq)
  from prev_is_operand_set [OF constructible_square_store r] constructible_square_store r p
  show ?thesis by blast
qed

text \<open>
  The claim as it was stated, one entry per consumed operand, fails for \<open>c = a * a\<close>:
  \<open>c\<close> consumed the operands \<open>a\<close> and \<open>a\<close>, and its \<open>_prev\<close> has the single entry \<open>a\<close>.
\<close>

theorem prev_is_operand_set_counterexample:
  "square_store = fst (mul False (fst (leaf [] 3)) 0 (Ref 0)) \<and>
   closure_operands (bwd (square_store ! 1)) = [0, 0] \<and>
   prev (square_store ! 1) = [0] \<and>
   length (prev (square_store ! 1)) \<noteq> length (closure_operands (bwd (square_store ! 1)))"
  by (simp add: square_store_eq) (simp add: builder_defs)

subsection \<open>Calling \<open>backward\<close> twice\<close>


















end
